theory Spec2Isabelle
  imports Main "HOL-Library.Word"
begin

section \<open>The chunk splitter of internal/streaming/streaming.go\<close>

subsection \<open>scanLinesCR\<close>

text \<open>
  Bytes are \<^typ>\<open>char\<close>, a Go byte slice or string is a \<^typ>\<open>string\<close>.
  The two boundary bytes of \<^verbatim>\<open>scanLinesCR\<close> are the newline (0x0A) and the
  carriage return (0x0D).
\<close>

abbreviation LF :: char where "LF \<equiv> CHR 0x0A"
abbreviation CR :: char where "CR \<equiv> CHR 0x0D"

text \<open>
  The \<^verbatim>\<open>for i, b := range data\<close> loop of \<^verbatim>\<open>scanLinesCR\<close>: the index of the
  first byte that is a newline or a carriage return, if there is one.
\<close>

fun find_boundary :: "string \<Rightarrow> nat option" where
  "find_boundary [] = None"
| "find_boundary (b # data) =
     (if b = LF \<or> b = CR then Some 0 else map_option Suc (find_boundary data))"

text \<open>
  \<^verbatim>\<open>scanLinesCR(data, atEOF)\<close> returns \<^verbatim>\<open>(advance, token, err)\<close>. The error is
  \<^verbatim>\<open>nil\<close> on every path, so the model returns the advance and the token; a
  \<^verbatim>\<open>nil\<close> token is \<open>None\<close>, and \<^verbatim>\<open>data[0:0]\<close> is the empty, non-nil token.
\<close>

definition scanLinesCR :: "string \<Rightarrow> bool \<Rightarrow> nat \<times> string option" where
  "scanLinesCR data atEOF =
     (case find_boundary data of
        Some i \<Rightarrow> (i + 1, Some (take i data))
      | None \<Rightarrow> if atEOF \<and> length data > 0 then (length data, Some data) else (0, None))"

subsection \<open>The reader and bufio.Scanner\<close>

text \<open>
  An \<^verbatim>\<open>io.Reader\<close> over a pipe or a pseudo-terminal: \<open>pending\<close> is what the
  process still writes before the stream ends, and \<open>sizes\<close> says how many bytes
  are available to each successive \<^verbatim>\<open>Read\<close> (a blocking read returns at least
  one byte while the stream is open; when \<open>sizes\<close> is used up a read returns all
  it can). \<^verbatim>\<open>Read(p)\<close> returns at most \<^verbatim>\<open>len(p)\<close> bytes, and end-of-file
  once nothing is pending.
\<close>

record reader =
  pending :: string
  sizes :: "nat list"

definition Read :: "reader \<Rightarrow> nat \<Rightarrow> string \<times> bool \<times> reader" where
  "Read rd space =
     (if pending rd = [] then ([], True, rd)
      else
        let k = (case sizes rd of [] \<Rightarrow> length (pending rd) | k # _ \<Rightarrow> max 1 k);
            n = min k (min space (length (pending rd)))
        in (take n (pending rd), False,
            rd\<lparr>pending := drop n (pending rd), sizes := tl (sizes rd)\<rparr>))"

datatype scan_error = EOF | ErrTooLong | ErrAdvanceTooFar | ErrNoProgress

text \<open>
  The fields of \<^verbatim>\<open>bufio.Scanner\<close> that \<^verbatim>\<open>Scan\<close> uses. \<open>buf\<close> holds the
  bytes \<^verbatim>\<open>s.buf[0:s.end]\<close> (so \<^verbatim>\<open>s.end\<close> is \<open>length (buf s)\<close>), \<open>buflen\<close> is
  \<^verbatim>\<open>len(s.buf)\<close>, and \<open>tok\<close> is the last token.
\<close>

record scanner =
  r :: reader
  maxTokenSize :: nat
  tok :: "string option"
  buf :: string
  buflen :: nat
  start :: nat
  err :: "scan_error option"

definition maxInt :: nat where
  "maxInt = 2 ^ 63 - 1"

definition startBufSize :: nat where
  "startBufSize = 4096"

text \<open>\<^verbatim>\<open>setErr\<close> records the first error that is not end-of-file.\<close>

definition setErr :: "scan_error \<Rightarrow> scanner \<Rightarrow> scanner" where
  "setErr e s = (if err s = None \<or> err s = Some EOF then s\<lparr>err := Some e\<rparr> else s)"

text \<open>
  The first half of one turn of the loop in \<^verbatim>\<open>Scan\<close>: offer the unread part
  of the buffer to the split function. \<open>Inl\<close> is a return from \<^verbatim>\<open>Scan\<close>,
  \<open>Inr\<close> goes on to the second half.
\<close>

definition scan_split :: "scanner \<Rightarrow> (bool \<times> scanner) + scanner" where
  "scan_split s =
     (if length (buf s) > start s \<or> err s \<noteq> None then
        (case scanLinesCR (drop (start s) (buf s)) (err s \<noteq> None) of
           (advance, token) \<Rightarrow>
             if advance > length (buf s) - start s
             then Inl (False, setErr ErrAdvanceTooFar s)
             else
               let s1 = s\<lparr>start := start s + advance, tok := token\<rparr>
               in if token \<noteq> None then Inl (True, s1) else Inr s1)
      else Inr s)"

text \<open>
  The second half: stop at an error, otherwise shift the unread bytes to the front
  of the buffer, double the buffer when it is full (failing with
  \<^verbatim>\<open>ErrTooLong\<close> once it has \<open>maxTokenSize\<close> bytes), and read. A read of no
  bytes without an error is repeated by \<^verbatim>\<open>Scan\<close> and ends in
  \<^verbatim>\<open>io.ErrNoProgress\<close>.
\<close>

definition scan_shift :: "scanner \<Rightarrow> scanner" where
  "scan_shift s =
     (if start s > 0 \<and> (length (buf s) = buflen s \<or> start s > buflen s div 2)
      then s\<lparr>buf := drop (start s) (buf s), start := 0\<rparr> else s)"

definition scan_grow :: "scanner \<Rightarrow> (bool \<times> scanner) + scanner" where
  "scan_grow s =
     (if length (buf s) = buflen s then
        (if buflen s \<ge> maxTokenSize s \<or> buflen s > maxInt div 2
         then Inl (False, setErr ErrTooLong s)
         else
           let newSize = (if buflen s * 2 = 0 then startBufSize else buflen s * 2)
           in Inr (s\<lparr>buf := drop (start s) (buf s), start := 0,
                     buflen := min newSize (maxTokenSize s)\<rparr>))
      else Inr s)"

definition scan_read :: "scanner \<Rightarrow> scanner" where
  "scan_read s =
     (case Read (r s) (buflen s - length (buf s)) of
        (bs, eof, rd) \<Rightarrow>
          let s1 = s\<lparr>buf := buf s @ bs, r := rd\<rparr>
          in if eof then setErr EOF s1
             else if bs = [] then setErr ErrNoProgress s1
             else s1)"

definition scan_fill :: "scanner \<Rightarrow> (bool \<times> scanner) + scanner" where
  "scan_fill s =
     (if err s \<noteq> None then Inl (False, s\<lparr>buf := [], start := 0\<rparr>)
      else
        (case scan_grow (scan_shift s) of
           Inl res \<Rightarrow> Inl res
         | Inr s1 \<Rightarrow> Inr (scan_read s1)))"

text \<open>The measure of the loop: what the reader still holds, and whether it is open.\<close>

definition unread :: "scanner \<Rightarrow> nat" where
  "unread s = length (pending (r s)) + (if err s = None then 1 else 0)"

lemma scan_split_Inr: "scan_split s = Inr s1 \<Longrightarrow> r s1 = r s \<and> err s1 = err s"
  by (auto simp: scan_split_def setErr_def Let_def split: if_splits prod.splits)

lemma scan_shift_same: "r (scan_shift s) = r s \<and> err (scan_shift s) = err s"
  by (simp add: scan_shift_def)

lemma scan_grow_Inr: "scan_grow s = Inr s1 \<Longrightarrow> r s1 = r s \<and> err s1 = err s"
  by (auto simp: scan_grow_def Let_def split: if_splits)

lemma scan_read_unread: "err s = None \<Longrightarrow> unread (scan_read s) < unread s"
  by (auto simp: scan_read_def Read_def unread_def setErr_def Let_def
           split: if_splits list.splits)

lemma scan_fill_unread: "scan_fill s = Inr s2 \<Longrightarrow> unread s2 < unread s"
proof -
  assume a: "scan_fill s = Inr s2"
  then have e: "err s = None"
    by (auto simp: scan_fill_def split: if_splits)
  from a e obtain s1 where g: "scan_grow (scan_shift s) = Inr s1" and s2: "s2 = scan_read s1"
    by (auto simp: scan_fill_def split: sum.splits)
  from g have "r s1 = r s \<and> err s1 = err s"
    using scan_grow_Inr scan_shift_same by metis
  then have "unread s1 = unread s" and "err s1 = None"
    using e by (simp_all add: unread_def)
  then show ?thesis
    using scan_read_unread [of s1] s2 by simp
qed

function Scan :: "scanner \<Rightarrow> bool \<times> scanner" where
  "Scan s =
     (case scan_split s of
        Inl res \<Rightarrow> res
      | Inr s1 \<Rightarrow> (case scan_fill s1 of Inl res \<Rightarrow> res | Inr s2 \<Rightarrow> Scan s2))"
  by pat_completeness auto
termination
proof (relation "measure unread")
  show "wf (measure unread)" by simp
next
  fix s s1 s2
  assume a: "scan_split s = Inr s1" and b: "scan_fill s1 = Inr s2"
  have "unread s2 < unread s1"
    using b by (rule scan_fill_unread)
  moreover have "r s1 = r s \<and> err s1 = err s"
    using a by (rule scan_split_Inr)
  ultimately show "(s2, s) \<in> measure unread" by (simp add: unread_def)
qed

declare Scan.simps [simp del]

text \<open>
  \<^verbatim>\<open>bufio.NewScanner(r)\<close> starts with no buffer and the default limit
  \<^verbatim>\<open>MaxScanTokenSize\<close>; \<^verbatim>\<open>Buffer(buf, max)\<close> installs
  \<^verbatim>\<open>buf[0:cap(buf)]\<close> and the limit \<open>max\<close>; \<^verbatim>\<open>Text()\<close> is the last token
  as a string.
\<close>

definition MaxScanTokenSize :: nat where
  "MaxScanTokenSize = 64 * 1024"

definition NewScanner :: "reader \<Rightarrow> scanner" where
  "NewScanner rd =
     \<lparr>r = rd, maxTokenSize = MaxScanTokenSize, tok = None, buf = [], buflen = 0,
      start = 0, err = None\<rparr>"

definition Buffer :: "nat \<Rightarrow> nat \<Rightarrow> scanner \<Rightarrow> scanner" where
  "Buffer cap mx s = s\<lparr>buf := [], buflen := cap, maxTokenSize := mx\<rparr>"

definition Text :: "scanner \<Rightarrow> string" where
  "Text s = (case tok s of None \<Rightarrow> [] | Some t \<Rightarrow> t)"

text \<open>What a scanner has not yet turned into tokens: buffered and pending bytes.\<close>

definition remaining :: "scanner \<Rightarrow> nat" where
  "remaining s = (length (buf s) - start s) + length (pending (r s))"

lemma scanLinesCR_token_advance:
  "scanLinesCR data atEOF = (advance, Some t) \<Longrightarrow> 0 < advance"
  by (auto simp: scanLinesCR_def split: option.splits if_splits)

lemma scan_split_True:
  "scan_split s = Inl (True, s') \<Longrightarrow> remaining s' < remaining s"
  by (auto simp: scan_split_def Let_def remaining_def setErr_def
           dest!: scanLinesCR_token_advance split: if_splits prod.splits)

lemma scan_split_Inr_remaining:
  "scan_split s = Inr s1 \<Longrightarrow> remaining s1 \<le> remaining s"
  by (auto simp: scan_split_def Let_def remaining_def split: if_splits prod.splits)

lemma scan_fill_True: "scan_fill s \<noteq> Inl (True, s')"
  by (auto simp: scan_fill_def scan_grow_def Let_def split: if_splits sum.splits)

lemma scan_shift_remaining: "remaining (scan_shift s) = remaining s"
  by (simp add: scan_shift_def remaining_def)

lemma scan_grow_remaining: "scan_grow s = Inr s1 \<Longrightarrow> remaining s1 = remaining s"
  by (auto simp: scan_grow_def Let_def remaining_def split: if_splits)

lemma Read_length:
  "Read rd space = (bs, eof, rd') \<Longrightarrow> length bs + length (pending rd') = length (pending rd)"
  by (auto simp: Read_def Let_def split: if_splits)

lemma scan_read_remaining: "remaining (scan_read s) \<le> remaining s"
proof -
  obtain bs eof rd where rd: "Read (r s) (buflen s - length (buf s)) = (bs, eof, rd)"
    by (cases "Read (r s) (buflen s - length (buf s))") auto
  have len: "length bs + length (pending rd) = length (pending (r s))"
    using rd by (rule Read_length)
  have "remaining (scan_read s) = (length (buf s) + length bs - start s) + length (pending rd)"
    using rd by (simp add: scan_read_def remaining_def setErr_def Let_def)
  also have "\<dots> \<le> (length (buf s) - start s) + length (pending (r s))"
    using len by arith
  finally show ?thesis by (simp add: remaining_def)
qed

lemma scan_fill_remaining: "scan_fill s = Inr s2 \<Longrightarrow> remaining s2 \<le> remaining s"
proof -
  assume "scan_fill s = Inr s2"
  then obtain s1 where g: "scan_grow (scan_shift s) = Inr s1" and s2: "s2 = scan_read s1"
    by (auto simp: scan_fill_def split: sum.splits if_splits)
  have "remaining s2 \<le> remaining s1"
    unfolding s2 by (rule scan_read_remaining)
  also have "remaining s1 = remaining s"
    using scan_grow_remaining [OF g] by (simp add: scan_shift_remaining)
  finally show ?thesis .
qed

lemma Scan_remaining: "Scan s = (True, s') \<Longrightarrow> remaining s' < remaining s"
proof (induction s rule: Scan.induct)
  case (1 s)
  show ?case
  proof (cases "scan_split s")
    case (Inl res)
    with "1.prems" have "scan_split s = Inl (True, s')"
      by (simp add: Scan.simps [of s])
    then show ?thesis by (rule scan_split_True)
  next
    case (Inr s1)
    note split = this
    show ?thesis
    proof (cases "scan_fill s1")
      case (Inl res)
      with split "1.prems" have "scan_fill s1 = Inl (True, s')"
        by (simp add: Scan.simps [of s])
      then show ?thesis by (simp add: scan_fill_True)
    next
      case (Inr s2)
      with split "1.prems" have "Scan s2 = (True, s')"
        by (simp add: Scan.simps [of s])
      then have "remaining s' < remaining s2"
        using "1.IH" split Inr by blast
      also have "remaining s2 \<le> remaining s1"
        using Inr by (rule scan_fill_remaining)
      also have "remaining s1 \<le> remaining s"
        using split by (rule scan_split_Inr_remaining)
      finally show ?thesis .
    qed
  qed
qed

text \<open>
  The tokens that the loop \<^verbatim>\<open>for scanner.Scan() { ... scanner.Text() ... }\<close>
  sees, in order, until \<^verbatim>\<open>Scan\<close> returns false.
\<close>

function tokens :: "scanner \<Rightarrow> string list" where
  "tokens s = (case Scan s of (True, s') \<Rightarrow> Text s' # tokens s' | (False, _) \<Rightarrow> [])"
  by pat_completeness auto
termination
  by (relation "measure remaining") (auto dest: Scan_remaining [OF sym])

declare tokens.simps [simp del]


subsection \<open>The splitter as the specification words it\<close>

text \<open>
  The specification's chunk splitter, written from its words and not from the code:
  the stream is cut at every newline or carriage return, the boundary byte is
  dropped, and bytes left over at the end of the stream form a last segment. A
  chunk is a segment with one newline appended.
\<close>

fun spec_segments :: "string \<Rightarrow> string \<Rightarrow> string list" where
  "spec_segments acc [] = (if acc = [] then [] else [acc])"
| "spec_segments acc (b # bs) =
     (if b = LF \<or> b = CR then acc # spec_segments [] bs else spec_segments (acc @ [b]) bs)"

definition spec_chunks :: "string \<Rightarrow> string list" where
  "spec_chunks input = map (\<lambda>seg. seg @ [LF]) (spec_segments [] input)"

subsection \<open>What Scan returns\<close>

text \<open>
  \<open>window\<close> is the unread part \<^verbatim>\<open>s.buf[s.start:s.end]\<close> of the buffer and
  \<open>stream\<close> is everything the scanner has not yet consumed. \<open>scanner_ok\<close> is the
  invariant of the scanner: the indices are in range, the buffer is no longer than
  the limit, and end-of-file was seen with room left in the buffer.
\<close>

definition window :: "scanner \<Rightarrow> string" where
  "window s = drop (start s) (buf s)"

definition stream :: "scanner \<Rightarrow> string" where
  "stream s = window s @ pending (r s)"

definition scanner_ok :: "scanner \<Rightarrow> bool" where
  "scanner_ok s \<longleftrightarrow>
     start s \<le> length (buf s) \<and> length (buf s) \<le> buflen s \<and>
     buflen s \<le> maxTokenSize s \<and> maxTokenSize s \<le> maxInt div 2 \<and>
     (err s = None \<or> (err s = Some EOF \<and> pending (r s) = [] \<and> length (buf s) < buflen s))"

lemma find_boundary_less: "find_boundary xs = Some i \<Longrightarrow> i < length xs"
  by (induction xs arbitrary: i) (auto split: if_splits)

lemma find_boundary_append_Some:
  "find_boundary xs = Some i \<Longrightarrow> find_boundary (xs @ ys) = Some i"
  by (induction xs arbitrary: i) (auto split: if_splits)

lemma find_boundary_append_None:
  "find_boundary xs = None \<Longrightarrow> find_boundary ys = None \<Longrightarrow> find_boundary (xs @ ys) = None"
  by (induction xs) (auto split: if_splits)

lemma find_boundary_append_later:
  "find_boundary xs = None \<Longrightarrow> find_boundary ys = Some j \<Longrightarrow>
   find_boundary (xs @ ys) = Some (length xs + j)"
  by (induction xs) (auto split: if_splits)

lemma spec_segments_Some:
  "find_boundary xs = Some i \<Longrightarrow>
   spec_segments acc xs = (acc @ take i xs) # spec_segments [] (drop (Suc i) xs)"
  by (induction xs arbitrary: acc i) (auto split: if_splits)

lemma spec_segments_None:
  "find_boundary xs = None \<Longrightarrow>
   spec_segments acc xs = (if acc @ xs = [] then [] else [acc @ xs])"
  by (induction xs arbitrary: acc) (auto split: if_splits)

definition scan_result_ok :: "scanner \<Rightarrow> bool \<times> scanner \<Rightarrow> bool" where
  "scan_result_ok s res =
     (case find_boundary (stream s) of
        Some i \<Rightarrow>
          if i < maxTokenSize s
          then fst res \<and> tok (snd res) = Some (take i (stream s)) \<and>
               stream (snd res) = drop (Suc i) (stream s) \<and>
               scanner_ok (snd res) \<and> maxTokenSize (snd res) = maxTokenSize s
          else \<not> fst res
      | None \<Rightarrow>
          if stream s \<noteq> [] \<and> length (stream s) < maxTokenSize s
          then fst res \<and> tok (snd res) = Some (stream s) \<and> stream (snd res) = [] \<and>
               scanner_ok (snd res) \<and> maxTokenSize (snd res) = maxTokenSize s
          else \<not> fst res)"

lemma scan_split_found:
  assumes ok: "scanner_ok s" and fb: "find_boundary (window s) = Some i"
  shows "scan_split s = Inl (True, s\<lparr>start := start s + (i + 1), tok := Some (take i (window s))\<rparr>)"
proof -
  have lt: "i < length (window s)" using fb by (rule find_boundary_less)
  then have "start s < length (buf s)" and "i + 1 \<le> length (buf s) - start s"
    by (simp_all add: window_def)
  then show ?thesis
    using fb by (simp add: scan_split_def scanLinesCR_def window_def Let_def)
qed

lemma scan_split_eof:
  assumes "find_boundary (window s) = None" and "err s \<noteq> None" and "window s \<noteq> []"
  shows "scan_split s = Inl (True, s\<lparr>start := start s + length (window s), tok := Some (window s)\<rparr>)"
  using assms by (simp add: scan_split_def scanLinesCR_def window_def Let_def)

lemma scan_split_none:
  assumes "find_boundary (window s) = None" and "err s = None \<or> window s = []"
  shows "\<exists>t. scan_split s = Inr (s\<lparr>tok := t\<rparr>)"
proof (cases "length (buf s) > start s \<or> err s \<noteq> None")
  case True
  then have "scan_split s = Inr (s\<lparr>start := start s + 0, tok := None\<rparr>)"
    using assms by (auto simp: scan_split_def scanLinesCR_def window_def Let_def)
  then show ?thesis by auto
next
  case False
  then have "scan_split s = Inr s" by (simp add: scan_split_def)
  then have "scan_split s = Inr (s\<lparr>tok := tok s\<rparr>)" by simp
  then show ?thesis by blast
qed


lemma scan_fill_eof: "err s \<noteq> None \<Longrightarrow> \<exists>s'. scan_fill s = Inl (False, s')"
  by (simp add: scan_fill_def)

lemma scan_fill_full:
  assumes "scanner_ok s" and "err s = None" and "length (window s) \<ge> maxTokenSize s"
  shows "\<exists>s'. scan_fill s = Inl (False, s')"
proof -
  from assms have "start s = 0" and "length (buf s) = buflen s" and "buflen s \<ge> maxTokenSize s"
    by (auto simp: scanner_ok_def window_def)
  then show ?thesis
    using assms(2) by (simp add: scan_fill_def scan_shift_def scan_grow_def)
qed

lemma Read_props:
  assumes "Read rd space = (bs, eof, rd')"
  shows "bs @ pending rd' = pending rd" and "length bs \<le> space"
    and "eof \<longrightarrow> pending rd = []" and "\<not> eof \<and> 0 < space \<longrightarrow> bs \<noteq> []"
proof -
  define k where "k = (case sizes rd of [] \<Rightarrow> length (pending rd) | k # _ \<Rightarrow> max 1 k)"
  define n where "n = min k (min space (length (pending rd)))"
  have k: "pending rd \<noteq> [] \<Longrightarrow> 0 < k"
    by (cases "sizes rd") (simp_all add: k_def)
  have n: "pending rd \<noteq> [] \<Longrightarrow> 0 < space \<Longrightarrow> 0 < n"
    using k by (simp add: n_def)
  have res: "pending rd \<noteq> [] \<Longrightarrow> bs = take n (pending rd) \<and> \<not> eof \<and> pending rd' = drop n (pending rd)"
    using assms by (auto simp: Read_def Let_def k_def n_def)
  have res0: "pending rd = [] \<Longrightarrow> bs = [] \<and> eof \<and> rd' = rd"
    using assms by (auto simp: Read_def)
  show "bs @ pending rd' = pending rd"
    using res res0 by (cases "pending rd = []") auto
  show "length bs \<le> space"
    using res res0 by (cases "pending rd = []") (auto simp: n_def)
  show "eof \<longrightarrow> pending rd = []"
    using res by auto
  show "\<not> eof \<and> 0 < space \<longrightarrow> bs \<noteq> []"
    using res res0 n by (cases "pending rd = []") auto
qed

lemma scan_grow_room:
  assumes ok: "scanner_ok s"
    and room: "length (buf s) = buflen s \<longrightarrow> buflen s < maxTokenSize s"
    and front: "length (buf s) = buflen s \<longrightarrow> start s = 0"
  shows "\<exists>s1. scan_grow s = Inr s1 \<and> start s1 \<le> length (buf s1) \<and>
           length (buf s1) < buflen s1 \<and> buflen s1 \<le> maxTokenSize s1 \<and>
           window s1 = window s \<and> err s1 = err s \<and> r s1 = r s \<and>
           maxTokenSize s1 = maxTokenSize s"
proof (cases "length (buf s) = buflen s")
  case True
  define n where "n = (if buflen s * 2 = 0 then startBufSize else buflen s * 2)"
  have b: "buflen s < maxTokenSize s" "start s = 0" "\<not> buflen s > maxInt div 2"
    using True room front ok by (auto simp: scanner_ok_def)
  have n: "buflen s < n" by (simp add: n_def startBufSize_def)
  have "scan_grow s = Inr (s\<lparr>buf := drop (start s) (buf s), start := 0,
                             buflen := min n (maxTokenSize s)\<rparr>)"
    using True b by (simp add: scan_grow_def n_def Let_def)
  then show ?thesis
    using True b n by (simp add: window_def)
next
  case False
  then have "scan_grow s = Inr s" by (simp add: scan_grow_def)
  then show ?thesis
    using False ok by (simp add: scanner_ok_def)
qed

lemma scan_fill_more:
  assumes ok: "scanner_ok s" and e: "err s = None" and w: "length (window s) < maxTokenSize s"
  shows "\<exists>s2. scan_fill s = Inr s2 \<and> scanner_ok s2 \<and> stream s2 = stream s \<and>
              maxTokenSize s2 = maxTokenSize s"
proof -
  define s0 where "s0 = scan_shift s"
  have s0: "scanner_ok s0" "window s0 = window s" "err s0 = None" "r s0 = r s"
    "maxTokenSize s0 = maxTokenSize s"
    "length (buf s0) = buflen s0 \<longrightarrow> start s0 = 0"
    using ok e by (auto simp: s0_def scan_shift_def scanner_ok_def window_def)
  have room: "length (buf s0) = buflen s0 \<longrightarrow> buflen s0 < maxTokenSize s0"
    using s0 w by (auto simp: window_def)
  obtain s1 where g: "scan_grow s0 = Inr s1"
    and s1': "start s1 \<le> length (buf s1)" "length (buf s1) < buflen s1"
      "buflen s1 \<le> maxTokenSize s1" "window s1 = window s0" "err s1 = err s0" "r s1 = r s0"
      "maxTokenSize s1 = maxTokenSize s0"
    using scan_grow_room [OF s0(1) room s0(6)] by blast
  have s1: "start s1 \<le> length (buf s1)" "length (buf s1) < buflen s1"
      "buflen s1 \<le> maxTokenSize s1" "window s1 = window s" "err s1 = None" "r s1 = r s"
      "maxTokenSize s1 = maxTokenSize s"
    using s1' s0 by simp_all
  define s2 where "s2 = scan_read s1"
  obtain bs eof rd where rd: "Read (r s1) (buflen s1 - length (buf s1)) = (bs, eof, rd)"
    by (cases "Read (r s1) (buflen s1 - length (buf s1))") auto
  have fill: "scan_fill s = Inr s2"
    using e g by (simp add: scan_fill_def s0_def s2_def)
  have bsrd: "bs @ pending rd = pending (r s1)" "length bs \<le> buflen s1 - length (buf s1)"
    "eof \<longrightarrow> pending (r s1) = []" "\<not> eof \<longrightarrow> bs \<noteq> []"
    using Read_props [OF rd] s1(2) by auto
  have "stream s2 = stream s"
    using rd bsrd s1 by (auto simp: s2_def scan_read_def Let_def setErr_def stream_def window_def)
  moreover have "maxTokenSize s2 = maxTokenSize s"
    using rd s1 by (auto simp: s2_def scan_read_def Let_def setErr_def)
  moreover have "scanner_ok s2"
    using rd bsrd s1 ok
    by (auto simp: s2_def scan_read_def Let_def setErr_def scanner_ok_def)
  ultimately show ?thesis using fill by blast
qed


lemma tok_update_same [simp]:
  "window (s\<lparr>tok := t\<rparr>) = window s" "stream (s\<lparr>tok := t\<rparr>) = stream s"
  "scanner_ok (s\<lparr>tok := t\<rparr>) = scanner_ok s"
  by (simp_all add: window_def stream_def scanner_ok_def)

lemma scan_result_ok_cong:
  assumes "stream s2 = stream s" and "maxTokenSize s2 = maxTokenSize s"
  shows "scan_result_ok s2 res = scan_result_ok s res"
  unfolding scan_result_ok_def assms by (rule refl)

lemma Scan_result: "scanner_ok s \<Longrightarrow> scan_result_ok s (Scan s)"
proof (induction s rule: Scan.induct)
  case (1 s)
  note ok = "1.prems"
  have bounds: "start s \<le> length (buf s)" "length (buf s) \<le> buflen s"
    "buflen s \<le> maxTokenSize s"
    using ok by (simp_all add: scanner_ok_def)
  show ?case
  proof (cases "find_boundary (window s)")
    case (Some i)
    define s' where "s' = s\<lparr>start := start s + (i + 1), tok := Some (take i (window s))\<rparr>"
    have lt: "i < length (window s)" using Some by (rule find_boundary_less)
    have sp: "scan_split s = Inl (True, s')"
      unfolding s'_def using ok Some by (rule scan_split_found)
    then have res: "Scan s = (True, s')" by (simp add: Scan.simps [of s])
    have fb: "find_boundary (stream s) = Some i"
      unfolding stream_def using Some by (rule find_boundary_append_Some)
    have "i < maxTokenSize s"
      using lt bounds by (simp add: window_def)
    moreover have "tok s' = Some (take i (stream s))"
      using lt by (simp add: s'_def stream_def)
    moreover have "stream s' = drop (Suc i) (stream s)"
      using lt by (simp add: s'_def stream_def window_def add.commute)
    moreover have "scanner_ok s'"
      using ok lt by (auto simp: s'_def scanner_ok_def window_def)
    moreover have "maxTokenSize s' = maxTokenSize s" by (simp add: s'_def)
    ultimately show ?thesis
      by (simp add: scan_result_ok_def fb res)
  next
    case None
    note nob = this
    show ?thesis
    proof (cases "err s = None")
      case False
      then have eof: "pending (r s) = []" "length (buf s) < buflen s"
        using ok by (auto simp: scanner_ok_def)
      have st: "stream s = window s" by (simp add: stream_def eof)
      show ?thesis
      proof (cases "window s = []")
        case True
        then obtain t where sp: "scan_split s = Inr (s\<lparr>tok := t\<rparr>)"
          using scan_split_none [OF nob] by blast
        obtain s'' where "scan_fill (s\<lparr>tok := t\<rparr>) = Inl (False, s'')"
          using scan_fill_eof [of "s\<lparr>tok := t\<rparr>"] False by auto
        then have "Scan s = (False, s'')" using sp by (simp add: Scan.simps [of s])
        then show ?thesis by (simp add: scan_result_ok_def st True)
      next
        case ne: False
        define s' where "s' = s\<lparr>start := start s + length (window s), tok := Some (window s)\<rparr>"
        have "scan_split s = Inl (True, s')"
          unfolding s'_def using nob False ne by (rule scan_split_eof)
        then have res: "Scan s = (True, s')" by (simp add: Scan.simps [of s])
        have "length (stream s) < maxTokenSize s"
          using eof bounds by (simp add: st window_def)
        moreover have "stream s' = []"
          using eof bounds by (simp add: s'_def stream_def window_def)
        moreover have "scanner_ok s'"
          using ok bounds by (auto simp: s'_def scanner_ok_def window_def)
        ultimately show ?thesis
          using nob ne by (simp add: scan_result_ok_def st res s'_def)
      qed
    next
      case True
      then obtain t where sp: "scan_split s = Inr (s\<lparr>tok := t\<rparr>)"
        using scan_split_none [OF nob] by blast
      define s1 where "s1 = s\<lparr>tok := t\<rparr>"
      have s1: "scanner_ok s1" "err s1 = None" "window s1 = window s" "stream s1 = stream s"
        "maxTokenSize s1 = maxTokenSize s"
        using ok True by (simp_all add: s1_def)
      show ?thesis
      proof (cases "length (window s) < maxTokenSize s")
        case False
        then obtain s'' where "scan_fill s1 = Inl (False, s'')"
          using scan_fill_full [of s1] s1 by auto
        then have res: "Scan s = (False, s'')"
          using sp by (simp add: Scan.simps [of s] s1_def)
        show ?thesis
        proof (cases "find_boundary (pending (r s))")
          case None
          then have "find_boundary (stream s) = None"
            unfolding stream_def using nob by (simp add: find_boundary_append_None)
          moreover have "\<not> length (stream s) < maxTokenSize s"
            using False by (simp add: stream_def)
          ultimately show ?thesis by (simp add: scan_result_ok_def res)
        next
          case (Some j)
          then have "find_boundary (stream s) = Some (length (window s) + j)"
            unfolding stream_def using nob by (simp add: find_boundary_append_later)
          then show ?thesis using False by (simp add: scan_result_ok_def res)
        qed
      next
        case lt: True
        then obtain s2 where fill: "scan_fill s1 = Inr s2" and s2: "scanner_ok s2"
          "stream s2 = stream s1" "maxTokenSize s2 = maxTokenSize s1"
          using scan_fill_more [of s1] s1 by auto
        have res: "Scan s = Scan s2"
          using sp fill by (simp add: Scan.simps [of s] s1_def)
        have "scan_result_ok s2 (Scan s2)"
          using "1.IH" [of s1 s2] sp fill s2(1) by (simp add: s1_def)
        moreover have "scan_result_ok s2 (Scan s2) = scan_result_ok s (Scan s2)"
          using s2 s1 by (intro scan_result_ok_cong) simp_all
        ultimately show ?thesis
          by (simp add: res)
      qed
    qed
  qed
qed

lemma tokens_True: "Scan s = (True, s') \<Longrightarrow> tokens s = Text s' # tokens s'"
  by (simp add: tokens.simps [of s])

lemma tokens_False: "Scan s = (False, s') \<Longrightarrow> tokens s = []"
  by (simp add: tokens.simps [of s])

text \<open>All tokens: the segments before the first one that does not fit the buffer.\<close>

lemma tokens_spec:
  "scanner_ok s \<Longrightarrow>
   tokens s = takeWhile (\<lambda>seg. length seg < maxTokenSize s) (spec_segments [] (stream s))"
proof (induction s rule: tokens.induct)
  case (1 s)
  note ok = "1.prems"
  have res: "scan_result_ok s (Scan s)" using ok by (rule Scan_result)
  obtain b s' where sc: "Scan s = (b, s')" by (cases "Scan s") auto
  show ?case
  proof (cases "find_boundary (stream s)")
    case (Some i)
    have segs: "spec_segments [] (stream s) =
                take i (stream s) # spec_segments [] (drop (Suc i) (stream s))"
      using spec_segments_Some [OF Some, of "[]"] by simp
    have len: "length (take i (stream s)) = i"
      using find_boundary_less [OF Some] by simp
    show ?thesis
    proof (cases "i < maxTokenSize s")
      case True
      then have s': "b" "tok s' = Some (take i (stream s))"
        "stream s' = drop (Suc i) (stream s)" "scanner_ok s'"
        "maxTokenSize s' = maxTokenSize s"
        using res Some by (simp_all add: scan_result_ok_def sc)
      have "tokens s' = takeWhile (\<lambda>seg. length seg < maxTokenSize s')
                          (spec_segments [] (stream s'))"
        using "1.IH" [of b s'] sc s' by simp
      moreover have "tokens s = Text s' # tokens s'"
        using sc s'(1) by (intro tokens_True) simp
      ultimately show ?thesis
        using s' True len by (simp add: segs Text_def)
    next
      case False
      then have "\<not> b" using res Some by (simp add: scan_result_ok_def sc)
      then have "tokens s = []" using sc tokens_False [of s s'] by simp
      then show ?thesis
        using False len by (simp add: segs)
    qed
  next
    case None
    have segs: "spec_segments [] (stream s) = (if stream s = [] then [] else [stream s])"
      using spec_segments_None [OF None, of "[]"] by simp
    show ?thesis
    proof (cases "stream s \<noteq> [] \<and> length (stream s) < maxTokenSize s")
      case True
      then have s': "b" "tok s' = Some (stream s)" "stream s' = []" "scanner_ok s'"
        "maxTokenSize s' = maxTokenSize s"
        using res None by (simp_all add: scan_result_ok_def sc)
      have "tokens s' = takeWhile (\<lambda>seg. length seg < maxTokenSize s')
                          (spec_segments [] (stream s'))"
        using "1.IH" [of b s'] sc s' by simp
      moreover have "tokens s = Text s' # tokens s'"
        using sc s'(1) by (intro tokens_True) simp
      ultimately show ?thesis
        using s' True by (simp add: segs Text_def)
    next
      case False
      have "\<not> fst (Scan s)"
        using res None False by (auto simp: scan_result_ok_def split: if_splits)
      then have "\<not> b" by (simp add: sc)
      then have "tokens s = []" using sc tokens_False [of s s'] by simp
      then show ?thesis
        using False by (auto simp: segs)
    qed
  qed
qed


section \<open>Operation identifiers, the emitter and the runners\<close>

subsection \<open>The process-wide state\<close>

text \<open>
  What the streaming package reads and writes outside its arguments: the global
  \<^verbatim>\<open>operationCounter\<close> (a \<^verbatim>\<open>uint64\<close>), the process id, the D-Bus connection
  (every \<^verbatim>\<open>conn.Emit\<close> call in order, with the error it returned), standard
  error and the log.
\<close>

datatype event = Output string string bool | Complete string int string

record world =
  operationCounter :: "64 word"
  pid :: int
  bus :: "(event \<times> string option) list"
  stderr_lines :: "string list"
  log_lines :: "string list"

text \<open>
  The transport is the environment of the emitter: the error (if any) that the
  \<open>k\<close>-th \<^verbatim>\<open>conn.Emit\<close> call of the process returns.
\<close>

type_synonym transport = "nat \<Rightarrow> string option"

definition sent :: "world \<Rightarrow> event list" where
  "sent w = map fst (bus w)"

subsection \<open>GenerateOperationID\<close>

text \<open>\<^verbatim>\<open>%d\<close> of \<^verbatim>\<open>fmt.Sprintf\<close>: decimal digits, with a minus sign for a negative int.\<close>

definition digit :: "nat \<Rightarrow> char" where
  "digit d = ''0123456789'' ! d"

function dec :: "nat \<Rightarrow> string" where
  "dec n = (if n < 10 then [digit n] else dec (n div 10) @ [digit (n mod 10)])"
  by pat_completeness auto
termination
  by (relation "measure id") auto

declare dec.simps [simp del]

definition fmt_d :: "int \<Rightarrow> string" where
  "fmt_d i = (if i < 0 then CHR ''-'' # dec (nat (- i)) else dec (nat i))"

text \<open>
  \<^verbatim>\<open>atomic.AddUint64(&operationCounter, 1)\<close> adds one, wrapping at \<open>2^64\<close>, and
  returns the new value; it is atomic, so concurrent calls act one after another.
\<close>

definition GenerateOperationID :: "world \<Rightarrow> string \<times> world" where
  "GenerateOperationID w =
     (let id = operationCounter w + 1
      in (''op-'' @ fmt_d (pid w) @ ''-'' @ dec (unat id), w\<lparr>operationCounter := id\<rparr>))"

subsection \<open>Emitter\<close>

text \<open>
  \<^verbatim>\<open>EmitOutput\<close> and \<^verbatim>\<open>EmitComplete\<close> hold the emitter's mutex around one
  \<^verbatim>\<open>conn.Emit\<close>, so each is one atomic step on the connection, and each returns
  the error of \<^verbatim>\<open>conn.Emit\<close>.
\<close>

definition conn_Emit :: "transport \<Rightarrow> event \<Rightarrow> world \<Rightarrow> string option \<times> world" where
  "conn_Emit tr ev w =
     (let e = tr (length (bus w)) in (e, w\<lparr>bus := bus w @ [(ev, e)]\<rparr>))"

definition EmitOutput ::
  "transport \<Rightarrow> string \<Rightarrow> string \<Rightarrow> bool \<Rightarrow> world \<Rightarrow> string option \<times> world" where
  "EmitOutput tr operationID data isStderr w = conn_Emit tr (Output operationID data isStderr) w"

definition EmitComplete ::
  "transport \<Rightarrow> string \<Rightarrow> int \<Rightarrow> string \<Rightarrow> world \<Rightarrow> string option \<times> world" where
  "EmitComplete tr operationID exitCode errorMsg w =
     conn_Emit tr (Complete operationID exitCode errorMsg) w"

subsection \<open>streamReader\<close>

text \<open>
  The body of the loop of \<^verbatim>\<open>streamReader\<close> for the token just scanned: the line
  is the token and a newline, it is logged, emitted, and a failed emission is
  reported on standard error.
\<close>

definition emit_line :: "transport \<Rightarrow> string \<Rightarrow> bool \<Rightarrow> scanner \<Rightarrow> world \<Rightarrow> world" where
  "emit_line tr operationID isStderr s w =
     (let line = Text s @ [LF];
          w1 = w\<lparr>log_lines := log_lines w @ [''[streaming] '' @ operationID @ '': '' @ line]\<rparr>
      in case EmitOutput tr operationID line isStderr w1 of
           (Some e, w2) \<Rightarrow>
             w2\<lparr>stderr_lines := stderr_lines w2 @
                   [''[streaming] failed to emit output: '' @ e @ [LF]]\<rparr>
         | (None, w2) \<Rightarrow> w2)"

text \<open>
  One turn of \<^verbatim>\<open>for scanner.Scan() { ... }\<close>: \<open>None\<close> when \<^verbatim>\<open>Scan\<close> returned
  false and the reader is done (scanner errors are ignored).
\<close>

definition reader_step ::
  "transport \<Rightarrow> string \<Rightarrow> bool \<Rightarrow> scanner \<Rightarrow> world \<Rightarrow> scanner option \<times> world" where
  "reader_step tr operationID isStderr s w =
     (case Scan s of
        (True, s') \<Rightarrow> (Some s', emit_line tr operationID isStderr s' w)
      | (False, s') \<Rightarrow> (None, w))"

fun rsize :: "scanner option \<Rightarrow> nat" where
  "rsize None = 0"
| "rsize (Some s) = Suc (remaining s)"

lemma reader_step_rsize:
  "reader_step tr operationID isStderr s w = (x, w') \<Longrightarrow> rsize x < rsize (Some s)"
  by (cases "Scan s") (auto simp: reader_step_def dest: Scan_remaining split: bool.splits)

function reader_loop ::
  "transport \<Rightarrow> string \<Rightarrow> bool \<Rightarrow> scanner \<Rightarrow> world \<Rightarrow> world" where
  "reader_loop tr operationID isStderr s w =
     (case reader_step tr operationID isStderr s w of
        (Some s', w') \<Rightarrow> reader_loop tr operationID isStderr s' w'
      | (None, w') \<Rightarrow> w')"
  by pat_completeness auto
termination
proof (relation "measure (\<lambda>(tr, operationID, isStderr, s, w). remaining s)")
  show "wf (measure (\<lambda>(tr, operationID, isStderr, s, w). remaining s))" by simp
next
  fix tr operationID isStderr s w x y s'
  assume "(x, y) = reader_step tr operationID isStderr s w" and "x = Some s'"
  then have "rsize (Some s') < rsize (Some s)"
    using reader_step_rsize [of tr operationID isStderr s w "Some s'" y] by simp
  then show "((tr, operationID, isStderr, s', y), (tr, operationID, isStderr, s, w))
             \<in> measure (\<lambda>(tr, operationID, isStderr, s, w). remaining s)"
    by simp
qed

declare reader_loop.simps [simp del]

text \<open>The scanner that \<^verbatim>\<open>streamReader\<close> sets up: 64 KiB at first, 1 MiB at most.\<close>

definition newStreamScanner :: "reader \<Rightarrow> scanner" where
  "newStreamScanner rd = Buffer (64 * 1024) (1024 * 1024) (NewScanner rd)"

definition streamReader :: "transport \<Rightarrow> string \<Rightarrow> reader \<Rightarrow> bool \<Rightarrow> world \<Rightarrow> world" where
  "streamReader tr operationID rd isStderr w =
     reader_loop tr operationID isStderr (newStreamScanner rd) w"


subsection \<open>The process\<close>

text \<open>
  What \<^verbatim>\<open>cmd.Wait()\<close> can return: \<^verbatim>\<open>nil\<close>, an \<^verbatim>\<open>*exec.ExitError\<close> around
  the wait status of a process that did not exit with status 0 (it exited with an
  8-bit status, or a signal ended it), or another error with its message.
  \<^verbatim>\<open>ExitCode()\<close> of an \<^verbatim>\<open>ExitError\<close> is the exit status of a process that
  exited and \<open>-1\<close> for one that a signal ended.
\<close>

datatype wait_status = Exited "8 word" | Signaled nat

datatype go_error = ExitError wait_status | OtherError string

fun ExitCode :: "wait_status \<Rightarrow> int" where
  "ExitCode (Exited n) = uint n"
| "ExitCode (Signaled sg) = - 1"

text \<open>
  The statements between \<^verbatim>\<open>cmd.Wait()\<close> and \<^verbatim>\<open>EmitComplete\<close>, the same in the
  three runners: the \<^verbatim>\<open>exitCode\<close> and \<^verbatim>\<open>errorMsg\<close> of the completion.
\<close>

definition exit_result :: "go_error option \<Rightarrow> int \<times> string" where
  "exit_result e =
     (case e of
        None \<Rightarrow> (0, [])
      | Some (ExitError st) \<Rightarrow> (ExitCode st, [])
      | Some (OtherError m) \<Rightarrow> (- 1, m))"

text \<open>The result of \<^verbatim>\<open>EmitComplete\<close> is dropped by the runners.\<close>

definition finalize :: "transport \<Rightarrow> string \<Rightarrow> go_error option \<Rightarrow> world \<Rightarrow> world" where
  "finalize tr operationID waitErr w =
     (case exit_result waitErr of
        (exitCode, errorMsg) \<Rightarrow> snd (EmitComplete tr operationID exitCode errorMsg w))"

text \<open>
  A started process: the bytes it writes to its two pipes and how it ends. A start
  attempt either fails at one of the three calls of the runner that can fail, with
  the error's message, or starts such a process.
\<close>

record process =
  stdout :: reader
  stderr :: reader
  wait :: "go_error option"

datatype spawn =
    StdoutPipeError string
  | StderrPipeError string
  | StartError string
  | Started process

datatype pty_spawn = PtyStartError string | PtyStarted reader "go_error option"

subsection \<open>The two reader goroutines of pipe mode\<close>

text \<open>
  The goroutines interleave turn by turn; a schedule says whose turn it is while
  both run (\<open>True\<close>: the reader of standard output), and \<^verbatim>\<open>wg.Wait()\<close> returns
  when both are done. A reader that is done is \<open>None\<close>.
\<close>

definition turn :: "bool list \<Rightarrow> bool" where
  "turn sch = (case sch of [] \<Rightarrow> True | b # _ \<Rightarrow> b)"

function pipe_readers ::
  "transport \<Rightarrow> string \<Rightarrow> bool list \<Rightarrow> scanner option \<Rightarrow> scanner option \<Rightarrow> world \<Rightarrow> world"
where
  "pipe_readers tr operationID sch None None w = w"
| "pipe_readers tr operationID sch (Some so) None w =
     (case reader_step tr operationID False so w of
        (so', w') \<Rightarrow> pipe_readers tr operationID (tl sch) so' None w')"
| "pipe_readers tr operationID sch None (Some se) w =
     (case reader_step tr operationID True se w of
        (se', w') \<Rightarrow> pipe_readers tr operationID (tl sch) None se' w')"
| "pipe_readers tr operationID sch (Some so) (Some se) w =
     (if turn sch
      then (case reader_step tr operationID False so w of
              (so', w') \<Rightarrow> pipe_readers tr operationID (tl sch) so' (Some se) w')
      else (case reader_step tr operationID True se w of
              (se', w') \<Rightarrow> pipe_readers tr operationID (tl sch) (Some so) se' w'))"
  by pat_completeness auto
termination
proof (relation "measure (\<lambda>(tr, operationID, sch, a, b, w). rsize a + rsize b)")
  have le: "rsize (fst (reader_step tr operationID f s w)) \<le> remaining s"
    for tr operationID f s w
    using reader_step_rsize [of tr operationID f s w] 
    by (cases "reader_step tr operationID f s w") auto
  fix tr :: transport and operationID :: string and sch :: "bool list"
    and so se :: scanner and w w' :: world and x :: "scanner option"
  show "wf (measure (\<lambda>(tr, operationID, sch, a, b, w). rsize a + rsize b))" by simp
  {
    assume "(x, w') = reader_step tr operationID False so w"
    then have x: "x = fst (reader_step tr operationID False so w)"
      by (metis fst_conv)
    show "((tr, operationID, tl sch, x, None, w'), (tr, operationID, sch, Some so, None, w))
          \<in> measure (\<lambda>(tr, operationID, sch, a, b, w). rsize a + rsize b)"
      using le [of tr operationID False so w] by (simp add: x)
    show "((tr, operationID, tl sch, x, Some se, w'), (tr, operationID, sch, Some so, Some se, w))
          \<in> measure (\<lambda>(tr, operationID, sch, a, b, w). rsize a + rsize b)"
      using le [of tr operationID False so w] by (simp add: x)
  }
  {
    assume "(x, w') = reader_step tr operationID True se w"
    then have x: "x = fst (reader_step tr operationID True se w)"
      by (metis fst_conv)
    show "((tr, operationID, tl sch, None, x, w'), (tr, operationID, sch, None, Some se, w))
          \<in> measure (\<lambda>(tr, operationID, sch, a, b, w). rsize a + rsize b)"
      using le [of tr operationID True se w] by (simp add: x)
    show "((tr, operationID, tl sch, Some so, x, w'), (tr, operationID, sch, Some so, Some se, w))
          \<in> measure (\<lambda>(tr, operationID, sch, a, b, w). rsize a + rsize b)"
      using le [of tr operationID True se w] by (simp add: x)
  }
qed

subsection \<open>The runners\<close>

text \<open>
  A runner returns to its caller first and streams in a goroutine afterwards; the
  model gives the returned values together with the state once the goroutine has
  ended. The returned pair is Go's \<^verbatim>\<open>(string, error)\<close>.
\<close>

definition background ::
  "transport \<Rightarrow> bool list \<Rightarrow> string \<Rightarrow> process \<Rightarrow> world \<Rightarrow> world" where
  "background tr sch operationID p w =
     finalize tr operationID (wait p)
       (pipe_readers tr operationID sch
          (Some (newStreamScanner (stdout p))) (Some (newStreamScanner (stderr p))) w)"

definition RunCommandStreaming ::
  "transport \<Rightarrow> bool list \<Rightarrow> spawn \<Rightarrow> world \<Rightarrow> (string \<times> string option) \<times> world" where
  "RunCommandStreaming tr sch sp w =
     (case GenerateOperationID w of
        (operationID, w1) \<Rightarrow>
          (case sp of
             StdoutPipeError e \<Rightarrow> (([], Some (''failed to create stdout pipe: '' @ e)), w1)
           | StderrPipeError e \<Rightarrow> (([], Some (''failed to create stderr pipe: '' @ e)), w1)
           | StartError e \<Rightarrow> (([], Some (''failed to start command: '' @ e)), w1)
           | Started p \<Rightarrow> ((operationID, None), background tr sch operationID p w1)))"

definition RunCommandStreamingPTY ::
  "transport \<Rightarrow> pty_spawn \<Rightarrow> world \<Rightarrow> (string \<times> string option) \<times> world" where
  "RunCommandStreamingPTY tr sp w =
     (case GenerateOperationID w of
        (operationID, w1) \<Rightarrow>
          (case sp of
             PtyStartError e \<Rightarrow>
               (([], Some (''failed to start command with pty: '' @ e)), w1)
           | PtyStarted ptyFile waitErr \<Rightarrow>
               ((operationID, None),
                finalize tr operationID waitErr
                  (streamReader tr operationID ptyFile False w1))))"

definition RunCommandStreamingSync ::
  "transport \<Rightarrow> bool list \<Rightarrow> spawn \<Rightarrow> world \<Rightarrow> (string \<times> int \<times> string option) \<times> world"
where
  "RunCommandStreamingSync tr sch sp w =
     (case GenerateOperationID w of
        (operationID, w1) \<Rightarrow>
          (case sp of
             StdoutPipeError e \<Rightarrow>
               ((operationID, - 1, Some (''failed to create stdout pipe: '' @ e)), w1)
           | StderrPipeError e \<Rightarrow>
               ((operationID, - 1, Some (''failed to create stderr pipe: '' @ e)), w1)
           | StartError e \<Rightarrow>
               ((operationID, - 1, Some (''failed to start command: '' @ e)), w1)
           | Started p \<Rightarrow>
               ((operationID, fst (exit_result (wait p)), None),
                background tr sch operationID p w1)))"

section \<open>Properties\<close>

subsection \<open>Completion records\<close>

lemma sent_conn_Emit: "sent (snd (conn_Emit tr ev w)) = sent w @ [ev]"
  by (simp add: conn_Emit_def sent_def Let_def)

lemma sent_finalize:
  "sent (finalize tr operationID waitErr w) =
   sent w @ [Complete operationID (fst (exit_result waitErr)) (snd (exit_result waitErr))]"
  by (simp add: finalize_def EmitComplete_def sent_conn_Emit split: prod.splits)

subsection \<open>The events of the readers\<close>

definition chunk_events :: "string \<Rightarrow> bool \<Rightarrow> string list \<Rightarrow> event list" where
  "chunk_events operationID isStderr ts = map (\<lambda>t. Output operationID (t @ [LF]) isStderr) ts"

lemma chunk_events_simps [simp]:
  "chunk_events operationID isStderr [] = []"
  "chunk_events operationID isStderr (t # ts) =
   Output operationID (t @ [LF]) isStderr # chunk_events operationID isStderr ts"
  by (simp_all add: chunk_events_def)

fun otokens :: "scanner option \<Rightarrow> string list" where
  "otokens None = []"
| "otokens (Some s) = tokens s"

lemma sent_emit_line:
  "sent (emit_line tr operationID isStderr s w) =
   sent w @ [Output operationID (Text s @ [LF]) isStderr]"
proof -
  define w1 where
    "w1 = w\<lparr>log_lines := log_lines w @
              [''[streaming] '' @ operationID @ '': '' @ (Text s @ [LF])]\<rparr>"
  have "sent (snd (EmitOutput tr operationID (Text s @ [LF]) isStderr w1)) =
        sent w1 @ [Output operationID (Text s @ [LF]) isStderr]"
    by (simp add: EmitOutput_def sent_conn_Emit)
  moreover have "sent w1 = sent w" by (simp add: w1_def sent_def)
  moreover have "sent (emit_line tr operationID isStderr s w) =
                 sent (snd (EmitOutput tr operationID (Text s @ [LF]) isStderr w1))"
    by (cases "EmitOutput tr operationID (Text s @ [LF]) isStderr w1")
       (auto simp: emit_line_def Let_def w1_def sent_def split: option.splits)
  ultimately show ?thesis by simp
qed

lemma reader_step_None:
  "reader_step tr operationID isStderr s w = (None, w') \<Longrightarrow> w' = w \<and> tokens s = []"
  by (cases "Scan s") (auto simp: reader_step_def tokens_False split: bool.splits)

lemma reader_step_Some:
  "reader_step tr operationID isStderr s w = (Some s', w') \<Longrightarrow>
   tokens s = Text s' # tokens s' \<and>
   sent w' = sent w @ [Output operationID (Text s' @ [LF]) isStderr]"
  by (cases "Scan s")
     (auto simp: reader_step_def tokens_True sent_emit_line split: bool.splits)

lemma reader_step_sent:
  "reader_step tr operationID isStderr s w = (x, w') \<Longrightarrow>
   sent w @ chunk_events operationID isStderr (tokens s) =
   sent w' @ chunk_events operationID isStderr (otokens x)"
  by (cases x) (auto dest: reader_step_None reader_step_Some)

lemma sent_reader_loop:
  "sent (reader_loop tr operationID isStderr s w) =
   sent w @ chunk_events operationID isStderr (tokens s)"
proof (induction tr operationID isStderr s w rule: reader_loop.induct)
  case (1 tr operationID isStderr s w)
  obtain x w' where st: "reader_step tr operationID isStderr s w = (x, w')"
    by (cases "reader_step tr operationID isStderr s w") auto
  show ?case
  proof (cases x)
    case None
    then have "reader_loop tr operationID isStderr s w = w'"
      using st by (simp add: reader_loop.simps [of tr operationID isStderr s w])
    then show ?thesis
      using reader_step_sent [OF st] None by simp
  next
    case (Some s')
    then have "reader_loop tr operationID isStderr s w =
               reader_loop tr operationID isStderr s' w'"
      using st by (simp add: reader_loop.simps [of tr operationID isStderr s w])
    moreover have "sent (reader_loop tr operationID isStderr s' w') =
                   sent w' @ chunk_events operationID isStderr (tokens s')"
      using "1.IH" [OF st [symmetric] Some] by simp
    ultimately show ?thesis
      using reader_step_sent [OF st] Some by simp
  qed
qed


text \<open>
  The events of the two concurrent readers are an interleaving of the chunks of
  standard output, in their order, and the chunks of standard error, in theirs.
\<close>

lemma sent_pipe_readers:
  "\<exists>evs. sent (pipe_readers tr operationID sch a b w) = sent w @ evs \<and>
         evs \<in> shuffles (chunk_events operationID False (otokens a))
                         (chunk_events operationID True (otokens b))"
proof (induction tr operationID sch a b w rule: pipe_readers.induct)
  case (1 tr operationID sch w)
  show ?case by simp
next
  case (2 tr operationID sch so w)
  obtain x w' where st: "reader_step tr operationID False so w = (x, w')"
    by (cases "reader_step tr operationID False so w") auto
  obtain evs where evs: "sent (pipe_readers tr operationID (tl sch) x None w') = sent w' @ evs"
    "evs \<in> shuffles (chunk_events operationID False (otokens x)) []"
    using "2.IH" [OF st [symmetric]] by auto
  have "sent (pipe_readers tr operationID sch (Some so) None w) =
        sent w @ chunk_events operationID False (tokens so)"
    using st evs reader_step_sent [OF st] by simp
  then show ?case by simp
next
  case (3 tr operationID sch se w)
  obtain x w' where st: "reader_step tr operationID True se w = (x, w')"
    by (cases "reader_step tr operationID True se w") auto
  obtain evs where evs: "sent (pipe_readers tr operationID (tl sch) None x w') = sent w' @ evs"
    "evs \<in> shuffles [] (chunk_events operationID True (otokens x))"
    using "3.IH" [OF st [symmetric]] by auto
  have "sent (pipe_readers tr operationID sch None (Some se) w) =
        sent w @ chunk_events operationID True (tokens se)"
    using st evs reader_step_sent [OF st] by simp
  then show ?case by simp
next
  case (4 tr operationID sch so se w)
  show ?case
  proof (cases "turn sch")
    case True
    obtain x w' where st: "reader_step tr operationID False so w = (x, w')"
      by (cases "reader_step tr operationID False so w") auto
    obtain evs where evs:
      "sent (pipe_readers tr operationID (tl sch) x (Some se) w') = sent w' @ evs"
      "evs \<in> shuffles (chunk_events operationID False (otokens x))
                        (chunk_events operationID True (tokens se))"
      using "4.IH"(1) [OF True st [symmetric]] by auto
    have run: "pipe_readers tr operationID sch (Some so) (Some se) w =
               pipe_readers tr operationID (tl sch) x (Some se) w'"
      using st True by simp
    show ?thesis
    proof (cases x)
      case None
      then have "w' = w" "tokens so = []"
        using reader_step_None st by auto
      then show ?thesis using run evs None by auto
    next
      case (Some s')
      then have s': "tokens so = Text s' # tokens s'"
        "sent w' = sent w @ [Output operationID (Text s' @ [LF]) False]"
        using reader_step_Some st by auto
      have "Output operationID (Text s' @ [LF]) False # evs
            \<in> shuffles (chunk_events operationID False (tokens so))
                        (chunk_events operationID True (tokens se))"
        using evs(2) Some s'(1) by (simp add: Cons_in_shuffles_leftI)
      then show ?thesis using run evs(1) s'(2) by auto
    qed
  next
    case False
    obtain x w' where st: "reader_step tr operationID True se w = (x, w')"
      by (cases "reader_step tr operationID True se w") auto
    obtain evs where evs:
      "sent (pipe_readers tr operationID (tl sch) (Some so) x w') = sent w' @ evs"
      "evs \<in> shuffles (chunk_events operationID False (tokens so))
                        (chunk_events operationID True (otokens x))"
      using "4.IH"(2) [OF False st [symmetric]] by auto
    have run: "pipe_readers tr operationID sch (Some so) (Some se) w =
               pipe_readers tr operationID (tl sch) (Some so) x w'"
      using st False by simp
    show ?thesis
    proof (cases x)
      case None
      then have "w' = w" "tokens se = []"
        using reader_step_None st by auto
      then show ?thesis using run evs None by auto
    next
      case (Some s')
      then have s': "tokens se = Text s' # tokens s'"
        "sent w' = sent w @ [Output operationID (Text s' @ [LF]) True]"
        using reader_step_Some st by auto
      have "Output operationID (Text s' @ [LF]) True # evs
            \<in> shuffles (chunk_events operationID False (tokens so))
                        (chunk_events operationID True (tokens se))"
        using evs(2) Some s'(1) by (simp add: Cons_in_shuffles_rightI)
      then show ?thesis using run evs(1) s'(2) by auto
    qed
  qed
qed

lemma scanner_ok_newStreamScanner: "scanner_ok (newStreamScanner rd)"
  by (simp add: scanner_ok_def newStreamScanner_def Buffer_def NewScanner_def maxInt_def)

lemma tokens_newStreamScanner:
  "tokens (newStreamScanner rd) =
   takeWhile (\<lambda>seg. length seg < 1048576) (spec_segments [] (pending rd))"
proof -
  have "maxTokenSize (newStreamScanner rd) = 1048576"
    and "stream (newStreamScanner rd) = pending rd"
    by (simp_all add: newStreamScanner_def Buffer_def NewScanner_def stream_def window_def)
  then show ?thesis
    using tokens_spec [OF scanner_ok_newStreamScanner, of rd] by simp
qed

lemma shuffles_Nil_right: "evs \<in> shuffles xs [] \<Longrightarrow> evs = xs"
  by simp

lemma shuffles_Nil_left: "evs \<in> shuffles [] ys \<Longrightarrow> evs = ys"
  by simp

lemma sent_pipe_readers_one_left:
  "sent (pipe_readers tr operationID sch a None w) =
   sent w @ chunk_events operationID False (otokens a)"
  using sent_pipe_readers [of tr operationID sch a None w] by auto

lemma sent_pipe_readers_one_right:
  "sent (pipe_readers tr operationID sch None b w) =
   sent w @ chunk_events operationID True (otokens b)"
  using sent_pipe_readers [of tr operationID sch None b w] by auto

text \<open>With the empty schedule the reader of standard output runs until it is done.\<close>

lemma sent_pipe_readers_stdout_first:
  "sch = [] \<Longrightarrow>
   sent (pipe_readers tr operationID sch a b w) =
   sent w @ chunk_events operationID False (otokens a) @
            chunk_events operationID True (otokens b)"
proof (induction tr operationID sch a b w rule: pipe_readers.induct)
  case (1 tr operationID sch w)
  show ?case by simp
next
  case (2 tr operationID sch so w)
  show ?case using sent_pipe_readers_one_left [of tr operationID sch "Some so" w] by simp
next
  case (3 tr operationID sch se w)
  show ?case using sent_pipe_readers_one_right [of tr operationID sch "Some se" w] by simp
next
  case (4 tr operationID sch so se w)
  have t: "turn sch" using "4.prems" by (simp add: turn_def)
  obtain x w' where st: "reader_step tr operationID False so w = (x, w')"
    by (cases "reader_step tr operationID False so w") auto
  have run: "pipe_readers tr operationID sch (Some so) (Some se) w =
             pipe_readers tr operationID (tl sch) x (Some se) w'"
    using st t by simp
  have "sent (pipe_readers tr operationID (tl sch) x (Some se) w') =
        sent w' @ chunk_events operationID False (otokens x) @
                  chunk_events operationID True (otokens (Some se))"
    using "4.IH"(1) [OF t st [symmetric]] "4.prems" by simp
  then show ?case
    using run reader_step_sent [OF st] by simp
qed

text \<open>
  With a schedule that keeps giving the turn to the reader of standard error, that
  reader runs until it is done.
\<close>

lemma sent_pipe_readers_stderr_first:
  "sch = replicate n False \<Longrightarrow> length (otokens b) < n \<Longrightarrow>
   sent (pipe_readers tr operationID sch a b w) =
   sent w @ chunk_events operationID True (otokens b) @
            chunk_events operationID False (otokens a)"
proof (induction tr operationID sch a b w arbitrary: n rule: pipe_readers.induct)
  case (1 tr operationID sch w)
  show ?case by simp
next
  case (2 tr operationID sch so w)
  show ?case using sent_pipe_readers_one_left [of tr operationID sch "Some so" w] by simp
next
  case (3 tr operationID sch se w)
  show ?case using sent_pipe_readers_one_right [of tr operationID sch "Some se" w] by simp
next
  case (4 tr operationID sch so se w)
  have n: "0 < n" using "4.prems"(2) by simp
  then have t: "\<not> turn sch" and tl: "tl sch = replicate (n - 1) False"
    using "4.prems"(1) by (cases n; simp add: turn_def)+
  obtain x w' where st: "reader_step tr operationID True se w = (x, w')"
    by (cases "reader_step tr operationID True se w") auto
  have run: "pipe_readers tr operationID sch (Some so) (Some se) w =
             pipe_readers tr operationID (tl sch) (Some so) x w'"
    using st t by simp
  show ?case
  proof (cases x)
    case None
    then have "w' = w" "tokens se = []" using reader_step_None st by auto
    then show ?thesis
      using run None sent_pipe_readers_one_left [of tr operationID "tl sch" "Some so" w]
      by simp
  next
    case (Some s')
    then have "tokens se = Text s' # tokens s'" using reader_step_Some st by auto
    then have "length (otokens x) < n - 1" using Some "4.prems"(2) by simp
    then have "sent (pipe_readers tr operationID (tl sch) (Some so) x w') =
          sent w' @ chunk_events operationID True (otokens x) @
                    chunk_events operationID False (otokens (Some so))"
      using "4.IH"(2) [OF t st [symmetric] tl] by simp
    then show ?thesis
      using run reader_step_sent [OF st] by simp
  qed
qed

subsection \<open>The claims\<close>

text \<open>
  C1 (the code at the failing input). A process that a signal ended, for instance
  one killed when the context is cancelled, makes \<^verbatim>\<open>cmd.Wait()\<close> return an
  \<^verbatim>\<open>*exec.ExitError\<close> whose \<^verbatim>\<open>ExitCode()\<close> is \<open>-1\<close>. The runner takes the
  \<^verbatim>\<open>ExitError\<close> branch, which leaves \<^verbatim>\<open>errorMsg\<close> empty: for every started
  process that ends this way, the last event on the bus is the Complete event of
  the operation with exit code \<open>-1\<close> and the empty error message.
\<close>

theorem killed_process_completes_with_empty_message:
  "last (sent (snd (RunCommandStreaming tr sch
                      (Started (p\<lparr>wait := Some (ExitError (Signaled sg))\<rparr>)) w))) =
   Complete (fst (fst (RunCommandStreaming tr sch
                         (Started (p\<lparr>wait := Some (ExitError (Signaled sg))\<rparr>)) w)))
     (- 1) []"
  by (simp add: RunCommandStreaming_def background_def sent_finalize exit_result_def
           split: prod.splits)

definition is_output_of :: "string \<Rightarrow> event \<Rightarrow> bool" where
  "is_output_of operationID e =
     (case e of Output i _ _ \<Rightarrow> i = operationID | Complete _ _ _ \<Rightarrow> False)"

definition from_stderr :: "event \<Rightarrow> bool" where
  "from_stderr e = (case e of Output _ _ isStderr \<Rightarrow> isStderr | Complete _ _ _ \<Rightarrow> False)"

lemma list_all_chunk_events: "list_all (is_output_of operationID) (chunk_events operationID f ts)"
  by (induction ts) (simp_all add: is_output_of_def)

lemma list_all_shuffles:
  "evs \<in> shuffles xs ys \<Longrightarrow> list_all P xs \<Longrightarrow> list_all P ys \<Longrightarrow> list_all P evs"
  by (auto simp: list_all_iff dest: set_shuffles)

lemma from_stderr_Output [simp]: "from_stderr (Output i d f) = f"
  by (simp add: from_stderr_def)

lemma filter_chunk_events:
  "filter from_stderr (chunk_events operationID f ts) =
   (if f then chunk_events operationID f ts else [])"
  by (induction ts) auto

lemma filter_chunk_events_not:
  "filter (\<lambda>e. \<not> from_stderr e) (chunk_events operationID f ts) =
   (if f then [] else chunk_events operationID f ts)"
  by (induction ts) auto

lemma filter_shuffles_chunks:
  assumes "evs \<in> shuffles (chunk_events operationID False xs) (chunk_events operationID True ys)"
  shows "filter (\<lambda>e. \<not> from_stderr e) evs = chunk_events operationID False xs"
    and "filter from_stderr evs = chunk_events operationID True ys"
proof -
  have "filter P evs \<in> shuffles (filter P (chunk_events operationID False xs))
                                  (filter P (chunk_events operationID True ys))" for P
    using assms filter_shuffles [of P] by blast
  from this [of "\<lambda>e. \<not> from_stderr e"] this [of from_stderr]
  show "filter (\<lambda>e. \<not> from_stderr e) evs = chunk_events operationID False xs"
    and "filter from_stderr evs = chunk_events operationID True ys"
    by (simp_all add: filter_chunk_events filter_chunk_events_not)
qed

text \<open>The events of a started pipe-mode operation, once its goroutine has ended.\<close>

lemma sent_background:
  "\<exists>outs. sent (background tr sch operationID p w) =
            sent w @ outs @
              [Complete operationID (fst (exit_result (wait p))) (snd (exit_result (wait p)))] \<and>
          outs \<in> shuffles
            (chunk_events operationID False (tokens (newStreamScanner (stdout p))))
            (chunk_events operationID True (tokens (newStreamScanner (stderr p))))"
  using sent_pipe_readers [of tr operationID sch "Some (newStreamScanner (stdout p))"
      "Some (newStreamScanner (stderr p))" w]
  by (auto simp: background_def sent_finalize)

lemma sent_pty_background:
  "sent (finalize tr operationID waitErr (streamReader tr operationID ptyFile False w)) =
   sent w @ chunk_events operationID False (tokens (newStreamScanner ptyFile)) @
     [Complete operationID (fst (exit_result waitErr)) (snd (exit_result waitErr))]"
  by (simp add: sent_finalize streamReader_def sent_reader_loop)

text \<open>
  C2. Every operation that started, in pipe mode and in pty mode, emits Output
  events of its own OperationID and then one Complete event of that OperationID,
  which is the last event it emits: the events the run adds to the bus are a list
  of Output events of the operation followed by exactly one Complete event.
\<close>

theorem complete_once_after_all_outputs:
  "(case RunCommandStreaming tr sch (Started p) w of
      ((operationID, e), w') \<Rightarrow>
        e = None \<and>
        (\<exists>outs exitCode errorMsg.
           sent w' = sent w @ outs @ [Complete operationID exitCode errorMsg] \<and>
           list_all (is_output_of operationID) outs)) \<and>
   (case RunCommandStreamingPTY tr (PtyStarted ptyFile waitErr) w of
      ((operationID, e), w') \<Rightarrow>
        e = None \<and>
        (\<exists>outs exitCode errorMsg.
           sent w' = sent w @ outs @ [Complete operationID exitCode errorMsg] \<and>
           list_all (is_output_of operationID) outs))"
proof -
  obtain operationID w1 where g: "GenerateOperationID w = (operationID, w1)"
    by (cases "GenerateOperationID w") auto
  have w1: "sent w1 = sent w"
    using g by (auto simp: GenerateOperationID_def Let_def sent_def)
  obtain outs where outs:
    "sent (background tr sch operationID p w1) =
       sent w1 @ outs @
         [Complete operationID (fst (exit_result (wait p))) (snd (exit_result (wait p)))]"
    "outs \<in> shuffles
       (chunk_events operationID False (tokens (newStreamScanner (stdout p))))
       (chunk_events operationID True (tokens (newStreamScanner (stderr p))))"
    using sent_background [of tr sch operationID p w1] by blast
  have "list_all (is_output_of operationID) outs"
    using outs(2) by (rule list_all_shuffles) (rule list_all_chunk_events)+
  then have pipe: "\<exists>outs exitCode errorMsg.
      sent (background tr sch operationID p w1) =
        sent w @ outs @ [Complete operationID exitCode errorMsg] \<and>
      list_all (is_output_of operationID) outs"
    using outs(1) w1 by auto
  have pty: "\<exists>outs exitCode errorMsg.
      sent (finalize tr operationID waitErr (streamReader tr operationID ptyFile False w1)) =
        sent w @ outs @ [Complete operationID exitCode errorMsg] \<and>
      list_all (is_output_of operationID) outs"
    using sent_pty_background [of tr operationID waitErr ptyFile w1] w1
      list_all_chunk_events [of operationID False "tokens (newStreamScanner ptyFile)"]
    by auto
  show ?thesis
    using pipe pty g by (simp add: RunCommandStreaming_def RunCommandStreamingPTY_def)
qed


text \<open>A process that writes one line to each of its two pipes and exits with status 0.\<close>

definition proc_xy :: process where
  "proc_xy =
     \<lparr>stdout = \<lparr>pending = ''x'' @ [LF], sizes = []\<rparr>,
      stderr = \<lparr>pending = ''y'' @ [LF], sizes = []\<rparr>,
      wait = None\<rparr>"

lemma sent_background_stdout_only:
  assumes "tokens (newStreamScanner (stderr p)) = []"
  shows "sent (background tr sch operationID p w) =
         sent w @ chunk_events operationID False (tokens (newStreamScanner (stdout p))) @
           [Complete operationID (fst (exit_result (wait p))) (snd (exit_result (wait p)))]"
  using sent_background [of tr sch operationID p w] assms by auto

lemma sent_GenerateOperationID: "sent (snd (GenerateOperationID w)) = sent w"
  by (simp add: GenerateOperationID_def Let_def sent_def)

text \<open>
  C4. A pipe-mode command that writes \<open>a\<close>, \<open>b\<close>, \<open>c\<close>, each with a newline,
  to standard output and nothing to standard error, and exits with status 0, emits,
  whatever the sizes of the reads, the schedule of the two readers and the state of
  the transport, exactly the three Output events for \<open>a\<close>, \<open>b\<close>, \<open>c\<close> in this
  order with \<open>isStderr = False\<close>, then Complete with exit code 0 and the empty
  message. For every started process, the events of standard output among the
  emitted Output events are the chunks of that stream in stream order, and likewise
  for standard error. The relative order of the two streams is not fixed: for a
  process writing \<open>x\<close> to standard output and \<open>y\<close> to standard error, one schedule
  emits \<open>x\<close> first and another \<open>y\<close> first.
\<close>

theorem pipe_mode_chunks_in_stream_order:
  "(case RunCommandStreaming tr sch
           (Started \<lparr>stdout = \<lparr>pending = ''a'' @ [LF] @ ''b'' @ [LF] @ ''c'' @ [LF], sizes = zo\<rparr>,
                     stderr = \<lparr>pending = [], sizes = ze\<rparr>, wait = None\<rparr>) w of
      ((operationID, e), w') \<Rightarrow>
        e = None \<and>
        sent w' = sent w @
          [Output operationID (''a'' @ [LF]) False, Output operationID (''b'' @ [LF]) False,
           Output operationID (''c'' @ [LF]) False, Complete operationID 0 []]) \<and>
   (case RunCommandStreaming tr sch (Started p) w of
      ((operationID, e), w') \<Rightarrow>
        (\<exists>outs exitCode errorMsg.
           sent w' = sent w @ outs @ [Complete operationID exitCode errorMsg] \<and>
           filter (\<lambda>ev. \<not> from_stderr ev) outs =
             chunk_events operationID False
               (takeWhile (\<lambda>seg. length seg < 1048576)
                  (spec_segments [] (pending (stdout p)))) \<and>
           filter from_stderr outs =
             chunk_events operationID True
               (takeWhile (\<lambda>seg. length seg < 1048576)
                  (spec_segments [] (pending (stderr p)))))) \<and>
   (case RunCommandStreaming tr [] (Started proc_xy) w of
      ((operationID, e), w') \<Rightarrow>
        sent w' = sent w @
          [Output operationID (''x'' @ [LF]) False, Output operationID (''y'' @ [LF]) True,
           Complete operationID 0 []]) \<and>
   (case RunCommandStreaming tr [False, False] (Started proc_xy) w of
      ((operationID, e), w') \<Rightarrow>
        sent w' = sent w @
          [Output operationID (''y'' @ [LF]) True, Output operationID (''x'' @ [LF]) False,
           Complete operationID 0 []])"
proof -
  obtain operationID w1 where g: "GenerateOperationID w = (operationID, w1)"
    by (cases "GenerateOperationID w") auto
  have w1: "sent w1 = sent w"
    using sent_GenerateOperationID [of w] g by simp
  define pabc where
    "pabc = \<lparr>stdout = \<lparr>pending = ''a'' @ [LF] @ ''b'' @ [LF] @ ''c'' @ [LF], sizes = zo\<rparr>,
             stderr = \<lparr>pending = [], sizes = ze\<rparr>, wait = None\<rparr>"
  have "tokens (newStreamScanner (stderr pabc)) = []"
    and "tokens (newStreamScanner (stdout pabc)) = [''a'', ''b'', ''c'']"
    by (simp_all add: tokens_newStreamScanner pabc_def)
  then have abc: "sent (background tr sch operationID pabc w1) =
      sent w @ [Output operationID (''a'' @ [LF]) False, Output operationID (''b'' @ [LF]) False,
                Output operationID (''c'' @ [LF]) False, Complete operationID 0 []]"
    using sent_background_stdout_only [of pabc tr sch operationID w1] w1
    by (simp add: exit_result_def pabc_def)
  obtain outs where outs:
    "sent (background tr sch operationID p w1) =
       sent w1 @ outs @
         [Complete operationID (fst (exit_result (wait p))) (snd (exit_result (wait p)))]"
    "outs \<in> shuffles
       (chunk_events operationID False (tokens (newStreamScanner (stdout p))))
       (chunk_events operationID True (tokens (newStreamScanner (stderr p))))"
    using sent_background [of tr sch operationID p w1] by blast
  have gen: "\<exists>outs exitCode errorMsg.
      sent (background tr sch operationID p w1) =
        sent w @ outs @ [Complete operationID exitCode errorMsg] \<and>
      filter (\<lambda>ev. \<not> from_stderr ev) outs =
        chunk_events operationID False
          (takeWhile (\<lambda>seg. length seg < 1048576) (spec_segments [] (pending (stdout p)))) \<and>
      filter from_stderr outs =
        chunk_events operationID True
          (takeWhile (\<lambda>seg. length seg < 1048576) (spec_segments [] (pending (stderr p))))"
    using outs(1) w1 filter_shuffles_chunks [OF outs(2)]
    by (auto simp: tokens_newStreamScanner)
  have tx: "tokens (newStreamScanner (stdout proc_xy)) = [''x'']"
    and ty: "tokens (newStreamScanner (stderr proc_xy)) = [''y'']"
    by (simp_all add: tokens_newStreamScanner proc_xy_def)
  have xy: "sent (background tr [] operationID proc_xy w1) =
      sent w @ [Output operationID (''x'' @ [LF]) False, Output operationID (''y'' @ [LF]) True,
                Complete operationID 0 []]"
    using sent_pipe_readers_stdout_first [of "[]" tr operationID
        "Some (newStreamScanner (stdout proc_xy))" "Some (newStreamScanner (stderr proc_xy))" w1]
      w1 tx ty
    by (simp add: background_def sent_finalize exit_result_def proc_xy_def)
  have yx: "sent (background tr [False, False] operationID proc_xy w1) =
      sent w @ [Output operationID (''y'' @ [LF]) True, Output operationID (''x'' @ [LF]) False,
                Complete operationID 0 []]"
    using sent_pipe_readers_stderr_first [of "[False, False]" 2
        "Some (newStreamScanner (stderr proc_xy))" tr operationID
        "Some (newStreamScanner (stdout proc_xy))" w1]
      w1 tx ty
    by (simp add: background_def sent_finalize exit_result_def proc_xy_def numeral_2_eq_2)
  show ?thesis
    using abc gen xy yx g by (simp add: RunCommandStreaming_def pabc_def)
qed

text \<open>A fresh process state and a transport on which every emission succeeds.\<close>

definition world0 :: world where
  "world0 = \<lparr>operationCounter = 0, pid = 4242, bus = [], stderr_lines = [], log_lines = []\<rparr>"

definition transport_up :: transport where
  "transport_up k = None"

lemma sent_world0 [simp]: "sent world0 = []"
  by (simp add: sent_def world0_def)

lemma sent_streamReader:
  "sent (streamReader tr operationID rd isStderr w) =
   sent w @ chunk_events operationID isStderr
              (takeWhile (\<lambda>seg. length seg < 1048576) (spec_segments [] (pending rd)))"
  by (simp add: streamReader_def sent_reader_loop tokens_newStreamScanner)

lemma find_boundary_replicate: "c \<noteq> LF \<Longrightarrow> c \<noteq> CR \<Longrightarrow> find_boundary (replicate n c) = None"
  by (induction n) simp_all

lemma spec_segments_long_first:
  assumes "c \<noteq> LF" and "c \<noteq> CR" and that: "0 < n"
  shows "\<exists>seg rest. spec_segments [] (replicate n c @ ys) = seg # rest \<and> n \<le> length seg"
proof (cases "find_boundary ys")
  case None
  then have "find_boundary (replicate n c @ ys) = None"
    using find_boundary_replicate [OF assms(1,2)] by (simp add: find_boundary_append_None)
  then have "spec_segments [] (replicate n c @ ys) = [replicate n c @ ys]"
    using that by (simp add: spec_segments_None)
  then show ?thesis by simp
next
  case (Some j)
  then have fb: "find_boundary (replicate n c @ ys) = Some (n + j)"
    using find_boundary_replicate [OF assms(1,2), of n] find_boundary_append_later [of "replicate n c" ys j]
    by simp
  have "n + j < length (replicate n c @ ys)"
    using fb by (rule find_boundary_less)
  then have "n \<le> length (take (n + j) (replicate n c @ ys))" by simp
  then show ?thesis
    using spec_segments_Some [OF fb, of "[]"] by simp
qed

lemma streamReader_long_first:
  assumes "c \<noteq> LF" and "c \<noteq> CR" and "1048576 \<le> n"
  shows "sent (streamReader tr operationID \<lparr>pending = replicate n c @ ys, sizes = zs\<rparr> isStderr w) =
         sent w"
proof -
  obtain seg rest where "spec_segments [] (replicate n c @ ys) = seg # rest" "n \<le> length seg"
    using spec_segments_long_first [OF assms(1,2), of n ys] assms(3) by auto
  then show ?thesis
    using assms(3) by (simp add: sent_streamReader)
qed


subsection \<open>The buffer stays within its limit\<close>

definition within_limit :: "scanner \<Rightarrow> bool" where
  "within_limit s \<longleftrightarrow> length (buf s) \<le> buflen s \<and> buflen s \<le> maxTokenSize s"

lemma setErr_within [simp]:
  "within_limit (setErr e s) = within_limit s" "maxTokenSize (setErr e s) = maxTokenSize s"
  by (simp_all add: setErr_def within_limit_def)

lemma scan_split_within:
  "within_limit s \<Longrightarrow> scan_split s = Inl (b, s') \<Longrightarrow>
   within_limit s' \<and> maxTokenSize s' = maxTokenSize s"
  "within_limit s \<Longrightarrow> scan_split s = Inr s1 \<Longrightarrow>
   within_limit s1 \<and> maxTokenSize s1 = maxTokenSize s"
  by (auto simp: scan_split_def Let_def within_limit_def setErr_def
           split: if_splits prod.splits)

lemma scan_shift_within:
  "within_limit s \<Longrightarrow> within_limit (scan_shift s) \<and> maxTokenSize (scan_shift s) = maxTokenSize s"
  by (auto simp: scan_shift_def within_limit_def)

lemma scan_grow_within:
  "within_limit s \<Longrightarrow> scan_grow s = Inl (b, s') \<Longrightarrow>
   within_limit s' \<and> maxTokenSize s' = maxTokenSize s"
  "within_limit s \<Longrightarrow> scan_grow s = Inr s1 \<Longrightarrow>
   within_limit s1 \<and> maxTokenSize s1 = maxTokenSize s"
  by (auto simp: scan_grow_def Let_def within_limit_def setErr_def startBufSize_def
           split: if_splits)

lemma scan_read_within:
  assumes "within_limit s"
  shows "within_limit (scan_read s) \<and> maxTokenSize (scan_read s) = maxTokenSize s"
proof -
  obtain bs eof rd where rd: "Read (r s) (buflen s - length (buf s)) = (bs, eof, rd)"
    by (cases "Read (r s) (buflen s - length (buf s))") auto
  have "length bs \<le> buflen s - length (buf s)"
    using Read_props(2) [OF rd] .
  then show ?thesis
    using assms rd by (auto simp: scan_read_def Let_def within_limit_def setErr_def)
qed

lemma scan_fill_within:
  assumes "within_limit s"
  shows "scan_fill s = Inl (b, s') \<Longrightarrow> within_limit s' \<and> maxTokenSize s' = maxTokenSize s"
    and "scan_fill s = Inr s2 \<Longrightarrow> within_limit s2 \<and> maxTokenSize s2 = maxTokenSize s"
proof -
  have sh: "within_limit (scan_shift s)" "maxTokenSize (scan_shift s) = maxTokenSize s"
    using scan_shift_within [OF assms] by simp_all
  show "scan_fill s = Inl (b, s') \<Longrightarrow> within_limit s' \<and> maxTokenSize s' = maxTokenSize s"
    using assms scan_grow_within(1) [OF sh(1)] sh(2)
    by (auto simp: scan_fill_def within_limit_def split: if_splits sum.splits)
  show "scan_fill s = Inr s2 \<Longrightarrow> within_limit s2 \<and> maxTokenSize s2 = maxTokenSize s"
  proof -
    assume a: "scan_fill s = Inr s2"
    then obtain s1 where g: "scan_grow (scan_shift s) = Inr s1" and s2: "s2 = scan_read s1"
      by (auto simp: scan_fill_def split: if_splits sum.splits)
    have "within_limit s1 \<and> maxTokenSize s1 = maxTokenSize s"
      using scan_grow_within(2) [OF sh(1) g] sh(2) by simp
    then show ?thesis
      using scan_read_within [of s1] s2 by simp
  qed
qed

lemma Scan_within:
  "within_limit s \<Longrightarrow>
   within_limit (snd (Scan s)) \<and> maxTokenSize (snd (Scan s)) = maxTokenSize s"
proof (induction s rule: Scan.induct)
  case (1 s)
  show ?case
  proof (cases "scan_split s")
    case (Inl res)
    then have "Scan s = res" by (simp add: Scan.simps [of s])
    then show ?thesis
      using scan_split_within(1) [OF "1.prems", of "fst res" "snd res"] Inl by simp
  next
    case (Inr s1)
    note sp = this
    have s1: "within_limit s1" "maxTokenSize s1 = maxTokenSize s"
      using scan_split_within(2) [OF "1.prems" sp] by simp_all
    show ?thesis
    proof (cases "scan_fill s1")
      case (Inl res)
      then have "Scan s = res" using sp by (simp add: Scan.simps [of s])
      then show ?thesis
        using scan_fill_within(1) [OF s1(1), of "fst res" "snd res"] Inl s1(2) by simp
    next
      case (Inr s2)
      then have run: "Scan s = Scan s2" using sp by (simp add: Scan.simps [of s])
      have s2: "within_limit s2" "maxTokenSize s2 = maxTokenSize s1"
        using scan_fill_within(2) [OF s1(1) Inr] by simp_all
      show ?thesis
        using "1.IH" [OF sp Inr s2(1)] s2(2) s1(2) run by simp
    qed
  qed
qed

lemma Scans_within:
  "within_limit s \<Longrightarrow>
   within_limit (((snd \<circ> Scan) ^^ n) s) \<and> maxTokenSize (((snd \<circ> Scan) ^^ n) s) = maxTokenSize s"
  by (induction n) (auto dest: Scan_within)

lemma newStreamScanner_buffer_bound:
  "length (buf (((snd \<circ> Scan) ^^ n) (newStreamScanner rd))) \<le> 1048576"
proof -
  have "within_limit (newStreamScanner rd)" and "maxTokenSize (newStreamScanner rd) = 1048576"
    by (simp_all add: within_limit_def newStreamScanner_def Buffer_def NewScanner_def)
  then show ?thesis
    using Scans_within [of "newStreamScanner rd" n] by (simp add: within_limit_def)
qed

subsection \<open>Facts about the specification's splitter\<close>

lemma spec_segments_no_boundary:
  "seg \<in> set (spec_segments acc xs) \<Longrightarrow> LF \<notin> set acc \<Longrightarrow> CR \<notin> set acc \<Longrightarrow>
   LF \<notin> set seg \<and> CR \<notin> set seg"
  by (induction acc xs rule: spec_segments.induct) (auto split: if_splits)

lemma concat_spec_segments:
  "concat (spec_segments acc xs) = acc @ filter (\<lambda>b. b \<noteq> LF \<and> b \<noteq> CR) xs"
  by (induction acc xs rule: spec_segments.induct) auto

lemma spec_segments_CRLF:
  "spec_segments acc (xs @ CR # LF # ys) =
   spec_segments acc (xs @ [CR]) @ [] # spec_segments [] ys"
  by (induction xs arbitrary: acc) auto



lemma sent_streamReader_fits:
  "(\<forall>seg \<in> set (spec_segments [] (pending rd)). length seg < 1048576) \<Longrightarrow>
   sent (streamReader tr operationID rd isStderr w) =
     sent w @ map (\<lambda>chunk. Output operationID chunk isStderr) (spec_chunks (pending rd))"
proof -
  assume "\<forall>seg \<in> set (spec_segments [] (pending rd)). length seg < 1048576"
  then have tw: "takeWhile (\<lambda>seg. length seg < 1048576) (spec_segments [] (pending rd)) =
             spec_segments [] (pending rd)"
    by (simp add: takeWhile_eq_all_conv)
  show ?thesis
    unfolding sent_streamReader tw by (simp add: chunk_events_def spec_chunks_def comp_def)
qed

text \<open>
  C3 (as amended). For every input byte stream whose segments are all shorter than
  1,048,576 bytes, whatever the sizes of the reads, \<^verbatim>\<open>streamReader\<close> emits exactly
  the chunks of the specification's splitter, in order: the stream is cut at each
  newline and each carriage return, the boundary byte is in no chunk, every chunk
  is a segment without boundary bytes followed by one newline, bytes left at the
  end of the stream form the last chunk, and the segments together are the input
  without its boundary bytes.
\<close>

theorem streamReader_splits_at_newline_and_carriage_return:
  "(\<forall>seg \<in> set (spec_segments [] (pending rd)). length seg < 1048576) \<Longrightarrow>
   sent (streamReader tr operationID rd isStderr w) =
     sent w @ map (\<lambda>chunk. Output operationID chunk isStderr) (spec_chunks (pending rd)) \<and>
   (\<forall>chunk \<in> set (spec_chunks (pending rd)).
      \<exists>seg. chunk = seg @ [LF] \<and> LF \<notin> set seg \<and> CR \<notin> set seg) \<and>
   concat (spec_segments [] (pending rd)) = filter (\<lambda>b. b \<noteq> LF \<and> b \<noteq> CR) (pending rd)"
proof -
  assume fits: "\<forall>seg \<in> set (spec_segments [] (pending rd)). length seg < 1048576"
  then have "sent (streamReader tr operationID rd isStderr w) =
     sent w @ map (\<lambda>chunk. Output operationID chunk isStderr) (spec_chunks (pending rd))"
    by (rule sent_streamReader_fits)
  moreover have "\<forall>chunk \<in> set (spec_chunks (pending rd)).
      \<exists>seg. chunk = seg @ [LF] \<and> LF \<notin> set seg \<and> CR \<notin> set seg"
    using spec_segments_no_boundary [of _ "[]" "pending rd"]
    by (auto simp: spec_chunks_def)
  moreover have "concat (spec_segments [] (pending rd)) =
                 filter (\<lambda>b. b \<noteq> LF \<and> b \<noteq> CR) (pending rd)"
    by (simp add: concat_spec_segments)
  ultimately show ?thesis by blast
qed

text \<open>The progress-bar example of the specification, read in pieces of 5, 1 and 7 bytes.\<close>

theorem streamReader_progress_example:
  "spec_chunks (''progress: 1%'' @ [CR] @ ''progress: 2%'' @ [CR] @ ''done'' @ [LF]) =
     [''progress: 1%'' @ [LF], ''progress: 2%'' @ [LF], ''done'' @ [LF]] \<and>
   sent (streamReader transport_up ''op-4242-1''
           \<lparr>pending = ''progress: 1%'' @ [CR] @ ''progress: 2%'' @ [CR] @ ''done'' @ [LF],
            sizes = [5, 1, 7]\<rparr> False world0) =
     [Output ''op-4242-1'' (''progress: 1%'' @ [LF]) False,
      Output ''op-4242-1'' (''progress: 2%'' @ [LF]) False,
      Output ''op-4242-1'' (''done'' @ [LF]) False]"
  using streamReader_splits_at_newline_and_carriage_return
    [of "\<lparr>pending = ''progress: 1%'' @ [CR] @ ''progress: 2%'' @ [CR] @ ''done'' @ [LF],
          sizes = [5, 1, 7]\<rparr>" transport_up "''op-4242-1''" False world0]
  by (simp add: spec_chunks_def)

text \<open>
  C3 as stated fails: a stream of 1,048,576 bytes \<open>x\<close> with no boundary byte ends
  with residual unterminated bytes, and they are not flushed as a final chunk;
  nothing is emitted.
\<close>

theorem unterminated_megabyte_is_not_flushed:
  "sent (streamReader transport_up ''op-4242-1''
           \<lparr>pending = replicate 1048576 (CHR ''x''), sizes = []\<rparr> False world0) = []"
  using streamReader_long_first
    [of "CHR ''x''" 1048576 transport_up "''op-4242-1''" "[]" "[]" False world0]
  by simp


text \<open>
  C9 (the code at the failing input). A stream whose first segment has 1,048,577
  bytes, more than one megabyte, followed by a newline and the line \<open>ok\<close>: the
  scanner fails with \<^verbatim>\<open>ErrTooLong\<close>, \<^verbatim>\<open>streamReader\<close> ignores the error and
  returns, and no event is emitted at all: no truncated chunk and no split chunks
  for the long segment, and the later line \<open>ok\<close> is lost with it. The same
  happens already when the first segment has exactly 1,048,576 bytes. The buffer
  itself stays bounded: it never holds more than 1,048,576 bytes.
\<close>

theorem long_segment_stops_the_reader:
  "sent (streamReader transport_up ''op-4242-1''
           \<lparr>pending = replicate 1048577 (CHR ''x'') @ [LF] @ ''ok'' @ [LF], sizes = []\<rparr>
           False world0) = [] \<and>
   sent (streamReader transport_up ''op-4242-1''
           \<lparr>pending = replicate 1048576 (CHR ''x'') @ [LF] @ ''ok'' @ [LF], sizes = []\<rparr>
           False world0) = [] \<and>
   length (buf (((snd \<circ> Scan) ^^ n) (newStreamScanner rd))) \<le> 1048576"
  using streamReader_long_first
    [of "CHR ''x''" 1048577 transport_up "''op-4242-1''" "[LF] @ ''ok'' @ [LF]" "[]" False world0]
    streamReader_long_first
    [of "CHR ''x''" 1048576 transport_up "''op-4242-1''" "[LF] @ ''ok'' @ [LF]" "[]" False world0]
    newStreamScanner_buffer_bound [of n rd]
  by simp

text \<open>
  C10 (as amended). For every input stream that contains a carriage return
  directly followed by a newline and whose segments are all shorter than 1,048,576
  bytes, each of the two bytes is a boundary of its own: the chunks are those of the
  input up to and including the carriage return (the last of them is the segment
  before the carriage return), then a chunk that is just a newline, for the empty
  segment between the two bytes, then the chunks of the rest.
\<close>

theorem carriage_return_newline_gives_an_empty_chunk:
  "(\<forall>seg \<in> set (spec_segments [] (xs @ [CR, LF] @ ys)). length seg < 1048576) \<Longrightarrow>
   sent (streamReader tr operationID \<lparr>pending = xs @ [CR, LF] @ ys, sizes = zs\<rparr> isStderr w) =
     sent w @ map (\<lambda>chunk. Output operationID chunk isStderr)
                (spec_chunks (xs @ [CR]) @ [[LF]] @ spec_chunks ys)"
  using sent_streamReader_fits
    [of "\<lparr>pending = xs @ [CR, LF] @ ys, sizes = zs\<rparr>" tr operationID isStderr w]
  by (simp add: spec_chunks_def spec_segments_CRLF)


text \<open>The input \<open>a\<close>, carriage return, newline gives the chunk of \<open>a\<close> and an empty chunk.\<close>

theorem carriage_return_newline_example:
  "spec_segments [] (''a'' @ [CR, LF] @ []) = [''a'', []] \<and>
   sent (streamReader transport_up ''op-4242-1''
           \<lparr>pending = ''a'' @ [CR, LF] @ [], sizes = [1, 1, 1]\<rparr> False world0) =
     [Output ''op-4242-1'' (''a'' @ [LF]) False, Output ''op-4242-1'' [LF] False]"
  using carriage_return_newline_gives_an_empty_chunk
    [of "''a''" "[]" transport_up "''op-4242-1''" "[1, 1, 1]" False world0]
  by (simp add: spec_chunks_def)

text \<open>
  C10 as stated fails: an input of 1,048,576 bytes \<open>x\<close>, a carriage return and a
  newline contains the two-byte sequence, and neither the segment before the
  carriage return nor the empty chunk is emitted.
\<close>

theorem carriage_return_newline_after_megabyte_emits_nothing:
  "sent (streamReader transport_up ''op-4242-1''
           \<lparr>pending = replicate 1048576 (CHR ''x'') @ [CR, LF], sizes = []\<rparr>
           False world0) = []"
  using streamReader_long_first
    [of "CHR ''x''" 1048576 transport_up "''op-4242-1''" "[CR, LF]" "[]" False world0]
  by simp

end
